theory Spec2Isabelle
  imports Main "HOL-Library.AList"
begin

section \<open>Python values used by the model\<close>

text \<open>
  The sources are Python 2 (\<^verbatim>\<open>keys.extend\<close> on \<^verbatim>\<open>dict.keys()\<close>, byte strings).
  A \<^verbatim>\<open>str\<close> is a \<^typ>\<open>string\<close>, one \<^typ>\<open>char\<close> per byte. An exception that leaves a
  function is a value \<open>Inl e\<close> of the result.
\<close>

datatype py_error = KeyError string | TypeError | AttributeError

definition dq :: char where
  "dq = CHR 0x22"

definition sq :: char where
  "sq = CHR 0x27"

text \<open>\<^verbatim>\<open>"{name}".format(name=v)\<close>: a \<^verbatim>\<open>str\<close> is inserted as it is, \<^verbatim>\<open>None\<close> as the text None.\<close>

fun format_field :: "string option \<Rightarrow> string" where
  "format_field None = ''None''"
| "format_field (Some v) = v"

definition prepend :: "string \<Rightarrow> 'e + string \<Rightarrow> 'e + string" where
  "prepend t r = (case r of Inl e \<Rightarrow> Inl e | Inr out \<Rightarrow> Inr (t @ out))"

section \<open>The regular expressions of \<^verbatim>\<open>_qsignal.py\<close>\<close>

text \<open>
  The two patterns use literals, the classes \<^verbatim>\<open>.\<close>, \<^verbatim>\<open>\s\<close>, \<^verbatim>\<open>\w\<close> and \<^verbatim>\<open>['"]\<close>,
  the repetitions \<^verbatim>\<open>*\<close>, \<^verbatim>\<open>*?\<close> and \<^verbatim>\<open>+\<close> of one class, the greedy option \<^verbatim>\<open>(?:...)?\<close>
  and named groups. No flag is given to \<^verbatim>\<open>re.compile\<close>: \<^verbatim>\<open>.\<close> excludes the newline and
  \<^verbatim>\<open>\s\<close>, \<^verbatim>\<open>\w\<close> are the ASCII classes of a byte-string pattern.
\<close>

datatype cls = AnyChar | Space | Word | OneOf "char list"

definition is_space :: "char \<Rightarrow> bool" where
  "is_space c = (c \<in> set [CHR 0x20, CHR 0x09, CHR 0x0A, CHR 0x0D, CHR 0x0C, CHR 0x0B])"

definition is_word :: "char \<Rightarrow> bool" where
  "is_word c =
     (let n = (of_char c :: nat)
      in (97 \<le> n \<and> n \<le> 122) \<or> (65 \<le> n \<and> n \<le> 90) \<or> (48 \<le> n \<and> n \<le> 57) \<or> n = 95)"

fun in_cls :: "cls \<Rightarrow> char \<Rightarrow> bool" where
  "in_cls AnyChar c = (c \<noteq> CHR 0x0A)"
| "in_cls Space c = is_space c"
| "in_cls Word c = is_word c"
| "in_cls (OneOf cs) c = (c \<in> set cs)"

datatype rx =
    Lit string
  | Cls cls
  | Star cls
  | StarLazy cls
  | Plus cls
  | Opt "rx list"
  | Group string "rx list"

text \<open>
  The matcher backtracks as \<^verbatim>\<open>sre\<close> does: it works through a list of frames, the rest of
  the pattern still to be matched. \<open>Close n s0\<close> ends the group \<open>n\<close> that was entered
  when the remaining input was \<open>s0\<close>. The groups that took part in the match are kept in
  an association list, the latest first; a branch that fails loses what it recorded.
\<close>

datatype frame = Rx rx | Close string string

type_synonym groups = "(string \<times> string) list"

fun wt :: "rx \<Rightarrow> nat" where
  "wt (Lit l) = 1"
| "wt (Cls c) = 1"
| "wt (Star c) = 1"
| "wt (StarLazy c) = 1"
| "wt (Plus c) = 2"
| "wt (Opt rs) = Suc (sum_list (map wt rs))"
| "wt (Group n rs) = Suc (Suc (sum_list (map wt rs)))"

fun fwt :: "frame \<Rightarrow> nat" where
  "fwt (Rx r) = wt r"
| "fwt (Close n s0) = 1"

function re_match :: "frame list \<Rightarrow> string \<Rightarrow> groups \<Rightarrow> (groups \<times> string) option" where
  "re_match [] s g = Some (g, s)"
| "re_match (Rx (Lit l) # k) s g =
     (if take (length l) s = l then re_match k (drop (length l) s) g else None)"
| "re_match (Rx (Cls c) # k) s g =
     (case s of
        [] \<Rightarrow> None
      | x # xs \<Rightarrow> if in_cls c x then re_match k xs g else None)"
| "re_match (Rx (Star c) # k) s g =
     (case s of
        [] \<Rightarrow> re_match k s g
      | x # xs \<Rightarrow>
          if in_cls c x
          then (case re_match (Rx (Star c) # k) xs g of
                  Some r \<Rightarrow> Some r
                | None \<Rightarrow> re_match k s g)
          else re_match k s g)"
| "re_match (Rx (StarLazy c) # k) s g =
     (case re_match k s g of
        Some r \<Rightarrow> Some r
      | None \<Rightarrow>
          (case s of
             [] \<Rightarrow> None
           | x # xs \<Rightarrow> if in_cls c x then re_match (Rx (StarLazy c) # k) xs g else None))"
| "re_match (Rx (Plus c) # k) s g =
     (case s of
        [] \<Rightarrow> None
      | x # xs \<Rightarrow> if in_cls c x then re_match (Rx (Star c) # k) xs g else None)"
| "re_match (Rx (Opt rs) # k) s g =
     (case re_match (map Rx rs @ k) s g of
        Some r \<Rightarrow> Some r
      | None \<Rightarrow> re_match k s g)"
| "re_match (Rx (Group n rs) # k) s g = re_match (map Rx rs @ Close n s # k) s g"
| "re_match (Close n s0 # k) s g =
     re_match k s ((n, take (length s0 - length s) s0) # g)"
  by pat_completeness auto
termination
  by (relation "measures [\<lambda>(k, s, g). sum_list (map fwt k), \<lambda>(k, s, g). length s]")
     (auto simp: comp_def)

text \<open>
  \<^verbatim>\<open>pattern.search(string)\<close>: the first position, from the left, where the pattern
  matches; the result is the text before the match, the groups and the text after it.
\<close>

fun re_search :: "rx list \<Rightarrow> string \<Rightarrow> (string \<times> groups \<times> string) option" where
  "re_search p [] =
     (case re_match (map Rx p) [] [] of
        Some (g, rest) \<Rightarrow> Some ([], g, rest)
      | None \<Rightarrow> None)"
| "re_search p (c # cs) =
     (case re_match (map Rx p) (c # cs) [] of
        Some (g, rest) \<Rightarrow> Some ([], g, rest)
      | None \<Rightarrow>
          (case re_search p cs of
             Some (pre, g, rest) \<Rightarrow> Some (c # pre, g, rest)
           | None \<Rightarrow> None))"

text \<open>
  \<^verbatim>\<open>pattern.sub(repl, string)\<close> with a callable \<^verbatim>\<open>repl\<close>: the matches are found from left
  to right, each search starting where the last match ended, and \<^verbatim>\<open>repl\<close> is called on
  each as it is found, so its first exception ends the call. \<open>prev\<close> says that a match
  ended at the current position: an empty match there is ignored, and after any empty
  match one character is copied (\<^verbatim>\<open>pattern_subx\<close> of Python 2.7).
\<close>

function re_sub ::
  "rx list \<Rightarrow> (groups \<Rightarrow> py_error + string) \<Rightarrow> bool \<Rightarrow> string \<Rightarrow> py_error + string" where
  "re_sub p repl prev s =
     (case re_match (map Rx p) s [] of
        None \<Rightarrow>
          (case s of
             [] \<Rightarrow> Inr []
           | c # cs \<Rightarrow> prepend [c] (re_sub p repl False cs))
      | Some (g, rest) \<Rightarrow>
          if length rest < length s
          then (case repl g of
                  Inl e \<Rightarrow> Inl e
                | Inr t \<Rightarrow> prepend t (re_sub p repl True rest))
          else (case (if prev then Inr [] else repl g) of
                  Inl e \<Rightarrow> Inl e
                | Inr t \<Rightarrow>
                    (case s of
                       [] \<Rightarrow> Inr t
                     | c # cs \<Rightarrow> prepend (t @ [c]) (re_sub p repl False cs))))"
  by pat_completeness auto
termination
  by (relation "measure (\<lambda>(p, repl, prev, s). length s)") auto

declare re_sub.simps [simp del]

definition CONNECT_RE :: "rx list" where
  "CONNECT_RE =
     [Opt [Lit ''self.''], Lit ''connect('', Opt [Plus Space],
      Group ''owner'' [Star AnyChar, Opt [Lit ''>'']], Lit '','', Opt [Plus Space],
      Opt [Lit ''QtCore.''], Lit ''SIGNAL('', Opt [Plus Space], Cls (OneOf [sq, dq]),
      Group ''signal'' [Plus Word], Lit ''('', Group ''args'' [StarLazy AnyChar], Lit '')'',
      Cls (OneOf [sq, dq]), Opt [Plus Space], Lit ''),'', Opt [Plus Space],
      Group ''slot'' [StarLazy AnyChar], Lit '')'']"

definition EMIT_RE :: "rx list" where
  "EMIT_RE =
     [Opt [Group ''owner'' [Plus Word], Lit ''.''], Lit ''emit('', Opt [Plus Space],
      Opt [Lit ''QtCore.''], Lit ''SIGNAL('', Opt [Plus Space], Cls (OneOf [dq, sq]),
      Group ''signal'' [Plus Word], Lit ''('', Group ''arg_types'' [StarLazy AnyChar],
      Lit '')'', Cls (OneOf [dq, sq]), Opt [Plus Space], Lit '')'', Opt [Plus Space],
      Opt [Lit '','', Opt [Plus Space]], Group ''args'' [StarLazy AnyChar], Lit '')'']"

section \<open>The argument splitter\<close>

text \<open>
  Modelled from the spec: \<^verbatim>\<open>parse_args\<close> of \<^verbatim>\<open>qt_py_convert._modules.psep0101._c_args\<close>,
  imported and called by \<^verbatim>\<open>_connect_repl\<close>, whose file is not among the sources. The
  spec's Argument Splitter: a comma splits only at nesting depth zero of the three
  bracket kinds and outside a quote, a backslash inside a quote escapes the next
  character, every item is trimmed, and the empty text has no item.
\<close>

fun split_top :: "nat \<Rightarrow> char option \<Rightarrow> string \<Rightarrow> string \<Rightarrow> string list" where
  "split_top d q cur [] = [rev cur]"
| "split_top d (Some qc) cur (c # cs) =
     (if c = CHR 0x5C
      then (case cs of
              [] \<Rightarrow> [rev (c # cur)]
            | e # es \<Rightarrow> split_top d (Some qc) (e # c # cur) es)
      else if c = qc then split_top d None (c # cur) cs
      else split_top d (Some qc) (c # cur) cs)"
| "split_top d None cur (c # cs) =
     (if c = dq \<or> c = sq then split_top d (Some c) (c # cur) cs
      else if c \<in> set ''([{'' then split_top (Suc d) None (c # cur) cs
      else if c \<in> set '')]}'' then split_top (d - 1) None (c # cur) cs
      else if c = CHR '','' \<and> d = 0 then rev cur # split_top 0 None [] cs
      else split_top d None (c # cur) cs)"

text \<open>Modelled from the spec: every item is trimmed of leading and trailing whitespace.\<close>

definition strip :: "string \<Rightarrow> string" where
  "strip s = rev (dropWhile is_space (rev (dropWhile is_space s)))"

text \<open>Modelled from the spec: the empty text has no item, any other text is split and trimmed.\<close>

definition parse_args :: "string \<Rightarrow> string list" where
  "parse_args blob = (if blob = [] then [] else map strip (split_top 0 None [] blob))"

text \<open>
  What \<^verbatim>\<open>_connect_repl\<close> passes is \<^verbatim>\<open>groups["args"]\<close>, a \<^verbatim>\<open>str\<close> or \<^verbatim>\<open>None\<close>; the splitter
  is defined on text only.
\<close>

definition parse_args_call :: "string option \<Rightarrow> py_error + string list" where
  "parse_args_call v = (case v of None \<Rightarrow> Inl TypeError | Some blob \<Rightarrow> Inr (parse_args blob))"

section \<open>\<^verbatim>\<open>_qsignal.py\<close>\<close>

text \<open>
  \<^verbatim>\<open>_connect_repl\<close> calls \<^verbatim>\<open>parse_args\<close> on the captured signature, stores the result under
  \<^verbatim>\<open>"args"\<close> and formats a template that has no \<^verbatim>\<open>{args}\<close> field: the call matters
  only if it raises. The helper is the parameter \<open>pa\<close>.
\<close>

definition connect_repl :: "(string option \<Rightarrow> py_error + 'a) \<Rightarrow> groups \<Rightarrow> py_error + string" where
  "connect_repl pa gs =
     (case pa (map_of gs ''args'') of
        Inl e \<Rightarrow> Inl e
      | Inr parsed \<Rightarrow>
          Inr (format_field (map_of gs ''owner'') @ ''.'' @ format_field (map_of gs ''signal'')
               @ ''.connect('' @ format_field (map_of gs ''slot'') @ '')''))"

definition emit_repl :: "groups \<Rightarrow> string" where
  "emit_repl gs =
     format_field (map_of gs ''owner'') @ ''.'' @ format_field (map_of gs ''signal'')
     @ ''.emit('' @ format_field (map_of gs ''args'') @ '')''"

text \<open>
  Both functions end with \<^verbatim>\<open>if replacement_str != function_str: return replacement_str\<close>
  and \<^verbatim>\<open>return function_str\<close>: the result is \<^verbatim>\<open>replacement_str\<close> in both branches.
  Neither function reads or writes \<^verbatim>\<open>AliasDict\<close> or any other state, so the model has
  no state to pass. The unused \<^verbatim>\<open>SIGNAL_RE.search\<close> of \<^verbatim>\<open>process_emit\<close> is \<open>re_search\<close>.
\<close>

definition process_connect :: "(string option \<Rightarrow> py_error + 'a) \<Rightarrow> string \<Rightarrow> py_error + string" where
  "process_connect pa function_str =
     (case re_sub CONNECT_RE (connect_repl pa) False function_str of
        Inl e \<Rightarrow> Inl e
      | Inr replacement_str \<Rightarrow>
          if replacement_str \<noteq> function_str then Inr replacement_str else Inr function_str)"

definition process_emit :: "string \<Rightarrow> py_error + string" where
  "process_emit function_str =
     (case re_sub EMIT_RE (\<lambda>gs. Inr (emit_repl gs)) False function_str of
        Inl e \<Rightarrow> Inl e
      | Inr replacement_str \<Rightarrow>
          if replacement_str \<noteq> function_str then Inr replacement_str else Inr function_str)"

section \<open>\<^verbatim>\<open>general.py\<close>: the registry and the error records\<close>

text \<open>
  \<^verbatim>\<open>AliasDict\<close> is a dictionary from names to set objects, and a set object can be
  reached under several names: the sets live in a store, \<open>set_store\<close>, at addresses, and
  \<open>AliasDict\<close> maps a name to an address. \<open>set_next\<close> is the next unused address. The
  elements of the sets are texts, compared by value, and \<^verbatim>\<open>ErrorClass\<close> instances, which
  define neither \<^verbatim>\<open>__eq__\<close> nor \<^verbatim>\<open>__hash__\<close> and are compared by identity: \<open>ERef i\<close> is
  the instance number \<open>i\<close> of \<open>error_objs\<close>.
\<close>

datatype elem = EStr string | ERef nat

record ErrorClass =
  row :: int
  row_to :: int
  reason :: string

record position =
  line :: int
  column :: int

record bounding_box =
  top_left :: position
  bottom_right :: position

record node =
  absolute_bounding_box :: bounding_box

record world =
  set_store :: "nat \<Rightarrow> elem set"
  set_next :: nat
  error_objs :: "ErrorClass list"
  AliasDict :: "string \<rightharpoonup> nat"

text \<open>\<^verbatim>\<open>set()\<close> makes a new empty set object; \<^verbatim>\<open>self[name] = set()\<close> stores it under the name.\<close>

definition new_set :: "world \<Rightarrow> nat \<times> world" where
  "new_set w =
     (set_next w, w\<lparr>set_store := (set_store w)(set_next w := {}), set_next := Suc (set_next w)\<rparr>)"

definition setitem_new_set :: "string \<Rightarrow> world \<Rightarrow> world" where
  "setitem_new_set name w =
     (case new_set w of (a, w') \<Rightarrow> w'\<lparr>AliasDict := (AliasDict w')(name \<mapsto> a)\<rparr>)"

definition registry_names :: "string list" where
  "registry_names = [''bindings'', ''root_aliases'', ''used'', ''warnings'', ''errors'']"

text \<open>
  \<^verbatim>\<open>AliasDictClass.__init__\<close> builds the dictionary from five pairs of a name and a new set.
  \<^verbatim>\<open>clean\<close> prints a line, which the model leaves out, and stores five new sets.
\<close>

definition AliasDictClass_init :: "world \<Rightarrow> world" where
  "AliasDictClass_init w = fold setitem_new_set registry_names (w\<lparr>AliasDict := Map.empty\<rparr>)"

definition clean :: "world \<Rightarrow> world" where
  "clean w =
     setitem_new_set ''errors'' (setitem_new_set ''warnings'' (setitem_new_set ''used''
       (setitem_new_set ''root_aliases'' (setitem_new_set ''bindings'' w))))"

text \<open>
  \<^verbatim>\<open>AliasDict[name].add(x)\<close>, as in the last line of \<^verbatim>\<open>ErrorClass.__init__\<close>: a missing name
  raises \<^verbatim>\<open>KeyError\<close>; the set object at the address gains \<open>x\<close>. \<open>registry_get\<close> reads the
  set stored under a name.
\<close>

definition AliasDict_add :: "string \<Rightarrow> elem \<Rightarrow> world \<Rightarrow> py_error + world" where
  "AliasDict_add name x w =
     (case AliasDict w name of
        None \<Rightarrow> Inl (KeyError name)
      | Some a \<Rightarrow> Inr (w\<lparr>set_store := (set_store w)(a := insert x (set_store w a))\<rparr>))"

definition registry_get :: "world \<Rightarrow> string \<Rightarrow> elem set option" where
  "registry_get w name = map_option (set_store w) (AliasDict w name)"

text \<open>
  \<^verbatim>\<open>ErrorClass(node, reason)\<close>: the node is a redbaron node with its bounding box, line
  numbers are Python integers. The new instance gets the next number of \<open>error_objs\<close>,
  its three fields are set and it is added to the set under \<^verbatim>\<open>"errors"\<close>; the result is
  the instance and the new state.
\<close>

definition ErrorClass_init :: "node \<Rightarrow> string \<Rightarrow> world \<Rightarrow> py_error + (nat \<times> world)" where
  "ErrorClass_init nd why w =
     (let self = length (error_objs w);
          bbox = absolute_bounding_box nd;
          obj = \<lparr>row = line (top_left bbox) - 1, row_to = line (bottom_right bbox) - 1,
                 reason = why\<rparr>;
          w' = w\<lparr>error_objs := error_objs w @ [obj]\<rparr>
      in case AliasDict_add ''errors'' (ERef self) w' of
           Inl e \<Rightarrow> Inl e
         | Inr w'' \<Rightarrow> Inr (self, w''))"

section \<open>\<^verbatim>\<open>merge_dict\<close>\<close>

text \<open>
  The values of the two dictionaries: sets of hashable elements, texts, and, for the
  types that are neither, integers, lists and \<^verbatim>\<open>None\<close>. A dictionary is an association
  list with one pair for each key, in the order \<^verbatim>\<open>keys()\<close> lists them.
\<close>

datatype atom = AStr string | AInt int

datatype pyval = VSet "atom set" | VStr string | VInt int | VList "atom list" | VNone

type_synonym dict = "(string \<times> pyval) list"

text \<open>
  \<^verbatim>\<open>type(v)()\<close> is the empty value of the type of \<open>v\<close>; \<^verbatim>\<open>NoneType\<close> cannot be called in
  Python 2. \<^verbatim>\<open>set.union\<close> takes any iterable and \<^verbatim>\<open>str.__add__\<close> a \<^verbatim>\<open>str\<close> only.
\<close>

fun type_call :: "pyval \<Rightarrow> py_error + pyval" where
  "type_call (VSet A) = Inr (VSet {})"
| "type_call (VStr s) = Inr (VStr [])"
| "type_call (VInt i) = Inr (VInt 0)"
| "type_call (VList xs) = Inr (VList [])"
| "type_call VNone = Inl TypeError"

fun set_union :: "atom set \<Rightarrow> pyval \<Rightarrow> py_error + pyval" where
  "set_union A (VSet B) = Inr (VSet (A \<union> B))"
| "set_union A (VStr s) = Inr (VSet (A \<union> (\<lambda>c. AStr [c]) ` set s))"
| "set_union A (VList xs) = Inr (VSet (A \<union> set xs))"
| "set_union A (VInt i) = Inl TypeError"
| "set_union A VNone = Inl TypeError"

fun str_add :: "string \<Rightarrow> pyval \<Rightarrow> py_error + pyval" where
  "str_add s (VStr t) = Inr (VStr (s @ t))"
| "str_add s v = Inl TypeError"

text \<open>
  \<^verbatim>\<open>d[key]\<close> raises \<^verbatim>\<open>KeyError\<close> on a missing key. \<open>fill_missing key d other\<close> is
  \<^verbatim>\<open>if key not in d: d[key] = type(other[key])()\<close>.
\<close>

definition getitem :: "dict \<Rightarrow> string \<Rightarrow> py_error + pyval" where
  "getitem d key = (case map_of d key of None \<Rightarrow> Inl (KeyError key) | Some v \<Rightarrow> Inr v)"

definition fill_missing :: "string \<Rightarrow> dict \<Rightarrow> dict \<Rightarrow> py_error + dict" where
  "fill_missing key d other =
     (if map_of d key = None
      then (case getitem other key of
              Inl e \<Rightarrow> Inl e
            | Inr v \<Rightarrow>
                (case type_call v of
                   Inl e \<Rightarrow> Inl e
                 | Inr z \<Rightarrow> Inr (AList.update key z d)))
      else Inr d)"

fun isinstance_set :: "pyval \<Rightarrow> bool" where
  "isinstance_set (VSet A) = True"
| "isinstance_set v = False"

fun isinstance_str :: "pyval \<Rightarrow> bool" where
  "isinstance_str (VStr s) = True"
| "isinstance_str v = False"

fun call_method :: "pyval \<Rightarrow> string \<Rightarrow> pyval \<Rightarrow> py_error + pyval" where
  "call_method (VSet A) name v = (if name = ''union'' then set_union A v else Inl AttributeError)"
| "call_method (VStr s) name v = (if name = ''__add__'' then str_add s v else Inl AttributeError)"
| "call_method x name v = Inl AttributeError"

text \<open>
  The body of the loop, on the copies of \<^verbatim>\<open>lhs\<close> and \<^verbatim>\<open>rhs\<close> and on \<^verbatim>\<open>out\<close>. When \<^verbatim>\<open>op\<close>
  is \<^verbatim>\<open>None\<close> nothing is assigned.
\<close>

definition merge_key :: "string \<Rightarrow> dict \<times> dict \<times> dict \<Rightarrow> py_error + dict \<times> dict \<times> dict" where
  "merge_key key st =
     (case st of (lhs, rhs, out) \<Rightarrow>
        (case fill_missing key rhs lhs of
           Inl e \<Rightarrow> Inl e
         | Inr rhs \<Rightarrow>
             (case fill_missing key lhs rhs of
                Inl e \<Rightarrow> Inl e
              | Inr lhs \<Rightarrow>
                  (case getitem lhs key of
                     Inl e \<Rightarrow> Inl e
                   | Inr lv \<Rightarrow>
                       (case (if isinstance_set lv then Some ''union''
                              else if isinstance_str lv then Some ''__add__''
                              else None) of
                          None \<Rightarrow> Inr (lhs, rhs, out)
                        | Some op \<Rightarrow>
                            (case getitem rhs key of
                               Inl e \<Rightarrow> Inl e
                             | Inr rv \<Rightarrow>
                                 (case call_method lv op rv of
                                    Inl e \<Rightarrow> Inl e
                                  | Inr v \<Rightarrow> Inr (lhs, rhs, AList.update key v out))))))))"

fun merge_loop :: "string list \<Rightarrow> dict \<times> dict \<times> dict \<Rightarrow> py_error + dict" where
  "merge_loop [] st = Inr (snd (snd st))"
| "merge_loop (key # keys) st =
     (case merge_key key st of
        Inl e \<Rightarrow> Inl e
      | Inr st' \<Rightarrow> merge_loop keys st')"

text \<open>
  \<^verbatim>\<open>if not keys\<close> holds for \<^verbatim>\<open>None\<close> and for the empty list: the keys are then those of
  \<^verbatim>\<open>lhs\<close>, followed by those of \<^verbatim>\<open>rhs\<close> when \<^verbatim>\<open>keys_both\<close> is set. The loop starts from
  the empty \<^verbatim>\<open>out\<close>.
\<close>

definition merge_keys :: "dict \<Rightarrow> dict \<Rightarrow> string list option \<Rightarrow> bool \<Rightarrow> string list" where
  "merge_keys lhs rhs keys keys_both =
     (case keys of
        Some (k # ks) \<Rightarrow> k # ks
      | _ \<Rightarrow> map fst lhs @ (if keys_both then map fst rhs else []))"

definition merge_dict :: "dict \<Rightarrow> dict \<Rightarrow> string list option \<Rightarrow> bool \<Rightarrow> py_error + dict" where
  "merge_dict lhs rhs keys keys_both = merge_loop (merge_keys lhs rhs keys keys_both) (lhs, rhs, [])"


section \<open>Auxiliary functions of the proofs\<close>

text \<open>
  \<open>min_len\<close> is the least number of characters a pattern consumes. \<open>key_step\<close> is what
  one iteration of the loop of \<^verbatim>\<open>merge_dict\<close> does to the values stored under its key:
  the two values after filling and the value assigned to \<^verbatim>\<open>out[key]\<close>, if any.
\<close>

fun min_len :: "rx \<Rightarrow> nat" where
  "min_len (Lit l) = length l"
| "min_len (Cls c) = 1"
| "min_len (Star c) = 0"
| "min_len (StarLazy c) = 0"
| "min_len (Plus c) = 1"
| "min_len (Opt rs) = 0"
| "min_len (Group n rs) = sum_list (map min_len rs)"

fun fmin :: "frame \<Rightarrow> nat" where
  "fmin (Rx r) = min_len r"
| "fmin (Close n s0) = 0"

definition fill_value :: "string \<Rightarrow> pyval option \<Rightarrow> pyval option \<Rightarrow> py_error + pyval" where
  "fill_value key x other =
     (case x of
        Some v \<Rightarrow> Inr v
      | None \<Rightarrow> (case other of None \<Rightarrow> Inl (KeyError key) | Some v \<Rightarrow> type_call v))"

definition key_step ::
  "string \<Rightarrow> pyval option \<Rightarrow> pyval option \<Rightarrow> py_error + pyval \<times> pyval \<times> pyval option" where
  "key_step key l r =
     (case fill_value key r l of
        Inl e \<Rightarrow> Inl e
      | Inr rv \<Rightarrow>
          (case fill_value key l (Some rv) of
             Inl e \<Rightarrow> Inl e
           | Inr lv \<Rightarrow>
               if isinstance_set lv
               then (case call_method lv ''union'' rv of
                       Inl e \<Rightarrow> Inl e
                     | Inr v \<Rightarrow> Inr (lv, rv, Some v))
               else if isinstance_str lv
               then (case call_method lv ''__add__'' rv of
                       Inl e \<Rightarrow> Inl e
                     | Inr v \<Rightarrow> Inr (lv, rv, Some v))
               else Inr (lv, rv, None)))"

text \<open>
  The cases the registry merge is specified for: under the key, both sides hold a set,
  or both hold a text, or one side holds a set or a text and the other lacks the key.
\<close>

fun combinable :: "pyval option \<Rightarrow> pyval option \<Rightarrow> bool" where
  "combinable (Some (VSet A)) (Some (VSet B)) = True"
| "combinable (Some (VStr s)) (Some (VStr t)) = True"
| "combinable (Some (VSet A)) None = True"
| "combinable (Some (VStr s)) None = True"
| "combinable None (Some (VSet B)) = True"
| "combinable None (Some (VStr t)) = True"
| "combinable l r = False"

section \<open>The matcher\<close>

lemma prepend_Inr [simp]: "prepend t (Inr out) = Inr (t @ out)"
  by (simp add: prepend_def)

lemma prepend_Inl [simp]: "prepend t (Inl e) = Inl e"
  by (simp add: prepend_def)

lemma prepend_prepend [simp]: "prepend t (prepend u r) = prepend (t @ u) r"
  by (cases r) simp_all

lemma prepend_Nil [simp]: "prepend [] r = r"
  by (cases r) simp_all

lemma re_sub_no_match: "re_search p s = None \<Longrightarrow> re_sub p repl prev s = Inr s"
proof (induction s arbitrary: prev)
  case Nil
  then show ?case
    by (subst re_sub.simps) (simp split: option.splits prod.splits)
next
  case (Cons c cs)
  from Cons.prems have m: "re_match (map Rx p) (c # cs) [] = None"
    and r: "re_search p cs = None"
    by (auto split: option.splits prod.splits)
  show ?case
    by (subst re_sub.simps) (simp add: m Cons.IH [OF r])
qed

lemma re_match_consumes:
  "re_match k s g = Some (g', r) \<Longrightarrow> \<exists>m. s = m @ r \<and> sum_list (map fmin k) \<le> length m"
proof (induction k s g arbitrary: g' r rule: re_match.induct)
  case (1 s g)
  then show ?case by simp
next
  case (2 l k s g)
  then have t: "take (length l) s = l" and r: "re_match k (drop (length l) s) g = Some (g', r)"
    by (auto split: if_splits)
  from "2.IH" [OF t r] obtain m where m: "drop (length l) s = m @ r" "sum_list (map fmin k) \<le> length m"
    by blast
  have "s = (l @ m) @ r"
    using t m(1) by (metis append_assoc append_take_drop_id)
  then show ?case using m(2) by (intro exI [of _ "l @ m"]) simp
next
  case (3 c k s g)
  then obtain x xs where s: "s = x # xs" "in_cls c x" "re_match k xs g = Some (g', r)"
    by (auto split: list.splits if_splits)
  from "3.IH" [OF s] obtain m where "xs = m @ r" "sum_list (map fmin k) \<le> length m" by blast
  then show ?case using s(1) by (intro exI [of _ "x # m"]) simp
next
  case (4 c k s g)
  show ?case
  proof (cases s)
    case Nil
    with "4.prems" "4.IH"(1) show ?thesis by simp
  next
    case (Cons x xs)
    from "4.prems" have u:
      "(if in_cls c x
        then (case re_match (Rx (Star c) # k) xs g of Some r \<Rightarrow> Some r | None \<Rightarrow> re_match k s g)
        else re_match k s g) = Some (g', r)"
      by (subst (asm) re_match.simps) (simp add: Cons del: re_match.simps)
    show ?thesis
    proof (cases "in_cls c x")
      case False
      with u have "re_match k s g = Some (g', r)" by simp
      from "4.IH"(4) [OF Cons False this] show ?thesis by simp
    next
      case True
      show ?thesis
      proof (cases "re_match (Rx (Star c) # k) xs g")
        case None
        with u True have "re_match k s g = Some (g', r)" by simp
        from "4.IH"(3) [OF Cons True None this] show ?thesis by simp
      next
        case (Some a)
        with u True have "re_match (Rx (Star c) # k) xs g = Some (g', r)" by simp
        from "4.IH"(2) [OF Cons True this] obtain m
          where "xs = m @ r" "sum_list (map fmin k) \<le> length m"
          by auto
        then show ?thesis using Cons by (intro exI [of _ "x # m"]) simp
      qed
    qed
  qed
next
  case (5 c k s g)
  from "5.prems" have u:
    "(case re_match k s g of
        Some r \<Rightarrow> Some r
      | None \<Rightarrow>
          (case s of
             [] \<Rightarrow> None
           | x # xs \<Rightarrow> if in_cls c x then re_match (Rx (StarLazy c) # k) xs g else None))
     = Some (g', r)"
    by (subst (asm) re_match.simps) simp
  show ?case
  proof (cases "re_match k s g")
    case (Some a)
    with u have "re_match k s g = Some (g', r)" by simp
    from "5.IH"(1) [OF this] show ?thesis by simp
  next
    case None
    with u obtain x xs where s: "s = x # xs" "in_cls c x"
      and r: "re_match (Rx (StarLazy c) # k) xs g = Some (g', r)"
      by (auto simp del: re_match.simps split: list.splits if_splits)
    from "5.IH"(2) [OF None s r] obtain m where "xs = m @ r" "sum_list (map fmin k) \<le> length m"
      by auto
    then show ?thesis using s by (intro exI [of _ "x # m"]) simp
  qed
next
  case (6 c k s g)
  from "6.prems" obtain x xs where s: "s = x # xs" "in_cls c x"
    and r: "re_match (Rx (Star c) # k) xs g = Some (g', r)"
    by (subst (asm) re_match.simps) (auto simp del: re_match.simps split: list.splits if_splits)
  from "6.IH" [OF s r] obtain m where "xs = m @ r" "sum_list (map fmin k) \<le> length m"
    by auto
  then show ?case using s by (intro exI [of _ "x # m"]) simp
next
  case (7 rs k s g)
  show ?case
  proof (cases "re_match (map Rx rs @ k) s g")
    case (Some a)
    with "7.prems" have "re_match (map Rx rs @ k) s g = Some (g', r)" by simp
    from "7.IH"(1) [OF this] show ?thesis by auto
  next
    case None
    with "7.prems" have "re_match k s g = Some (g', r)" by simp
    from "7.IH"(2) [OF None this] show ?thesis by simp
  qed
next
  case (8 n rs k s g)
  then have "re_match (map Rx rs @ Close n s # k) s g = Some (g', r)" by simp
  from "8.IH" [OF this] show ?case by (simp add: comp_def)
next
  case (9 n s0 k s g)
  then have "re_match k s ((n, take (length s0 - length s) s0) # g) = Some (g', r)" by simp
  from "9.IH" [OF this] show ?case by simp
qed

lemma lazy_capture:
  "re_match [Rx (StarLazy c), Close n (a0 @ s), Rx (Lit l)] s g = Some (g', r)
   \<Longrightarrow> \<exists>u. s = u @ l @ r \<and> g' = (n, a0 @ u) # g"
proof (induction s arbitrary: a0)
  case Nil
  then show ?case
    by (subst (asm) re_match.simps) (auto simp del: re_match.simps(5) split: option.splits if_splits)
next
  case (Cons x xs)
  from Cons.prems have u:
    "(case re_match [Close n (a0 @ x # xs), Rx (Lit l)] (x # xs) g of
        Some r \<Rightarrow> Some r
      | None \<Rightarrow> if in_cls c x
                 then re_match [Rx (StarLazy c), Close n (a0 @ x # xs), Rx (Lit l)] xs g
                 else None) = Some (g', r)"
    by (subst (asm) re_match.simps)
       (auto simp del: re_match.simps split: option.splits if_splits)
  show ?case
  proof (cases "re_match [Close n (a0 @ x # xs), Rx (Lit l)] (x # xs) g")
    case (Some a)
    with u have "re_match [Close n (a0 @ x # xs), Rx (Lit l)] (x # xs) g = Some (g', r)"
      by simp
    then have "take (length l) (x # xs) = l" "r = drop (length l) (x # xs)" "g' = (n, a0) # g"
      by (auto split: if_splits)
    then have "x # xs = [] @ l @ r \<and> g' = (n, a0 @ []) # g"
      by (metis append_Nil append_Nil2 append_take_drop_id)
    then show ?thesis by blast
  next
    case None
    with u have "re_match [Rx (StarLazy c), Close n ((a0 @ [x]) @ xs), Rx (Lit l)] xs g = Some (g', r)"
      by (simp del: re_match.simps split: if_splits)
    from Cons.IH [OF this] obtain u' where "xs = u' @ l @ r" "g' = (n, (a0 @ [x]) @ u') # g"
      by blast
    then have "x # xs = (x # u') @ l @ r \<and> g' = (n, a0 @ (x # u')) # g" by simp
    then show ?thesis by blast
  qed
qed

lemma tail_capture:
  "K = k0 @ [Rx (Group n [StarLazy c]), Rx (Lit l)] \<Longrightarrow> re_match K s g = Some (g', r)
   \<Longrightarrow> \<exists>m a g0. s = m @ a @ l @ r \<and> g' = (n, a) # g0"
proof (induction K s g arbitrary: k0 g' r rule: re_match.induct)
  case (1 s g)
  then show ?case by simp
next
  case (2 l' k s g)
  from "2.prems"(1) obtain k1 where k: "k = k1 @ [Rx (Group n [StarLazy c]), Rx (Lit l)]"
    by (cases k0) auto
  from "2.prems"(2) have t: "take (length l') s = l'"
    and r: "re_match k (drop (length l') s) g = Some (g', r)"
    by (auto split: if_splits)
  from "2.IH" [OF t k r] obtain m a g0 where m: "drop (length l') s = m @ a @ l @ r" "g' = (n, a) # g0"
    by blast
  have "s = (l' @ m) @ a @ l @ r"
    using t m(1) by (metis append_assoc append_take_drop_id)
  then show ?case using m(2) by blast
next
  case (3 c' k s g)
  from "3.prems"(1) obtain k1 where k: "k = k1 @ [Rx (Group n [StarLazy c]), Rx (Lit l)]"
    by (cases k0) auto
  from "3.prems"(2) obtain x xs where s: "s = x # xs" "in_cls c' x"
    and r: "re_match k xs g = Some (g', r)"
    by (auto split: list.splits if_splits)
  from "3.IH" [OF s k r] obtain m a g0 where "xs = m @ a @ l @ r" "g' = (n, a) # g0" by blast
  then have "s = (x # m) @ a @ l @ r \<and> g' = (n, a) # g0" using s(1) by simp
  then show ?case by blast
next
  case (4 c' k s g)
  from "4.prems"(1) obtain k1 where k: "k = k1 @ [Rx (Group n [StarLazy c]), Rx (Lit l)]"
    and k': "Rx (Star c') # k = (Rx (Star c') # k1) @ [Rx (Group n [StarLazy c]), Rx (Lit l)]"
    by (cases k0) auto
  show ?case
  proof (cases s)
    case Nil
    with "4.prems"(2) have "re_match k s g = Some (g', r)" by simp
    from "4.IH"(1) [OF Nil k this] show ?thesis .
  next
    case (Cons x xs)
    from "4.prems"(2) have u:
      "(if in_cls c' x
        then (case re_match (Rx (Star c') # k) xs g of Some r \<Rightarrow> Some r | None \<Rightarrow> re_match k s g)
        else re_match k s g) = Some (g', r)"
      by (subst (asm) re_match.simps) (simp add: Cons del: re_match.simps)
    show ?thesis
    proof (cases "in_cls c' x")
      case False
      with u have "re_match k s g = Some (g', r)" by simp
      from "4.IH"(4) [OF Cons False k this] show ?thesis .
    next
      case True
      show ?thesis
      proof (cases "re_match (Rx (Star c') # k) xs g")
        case None
        with u True have "re_match k s g = Some (g', r)" by simp
        from "4.IH"(3) [OF Cons True None k this] show ?thesis .
      next
        case (Some b)
        with u True have "re_match (Rx (Star c') # k) xs g = Some (g', r)" by simp
        from "4.IH"(2) [OF Cons True k' this] obtain m a g0
          where "xs = m @ a @ l @ r" "g' = (n, a) # g0"
          by blast
        then have "s = (x # m) @ a @ l @ r \<and> g' = (n, a) # g0" using Cons by simp
        then show ?thesis by blast
      qed
    qed
  qed
next
  case (5 c' k s g)
  from "5.prems"(1) obtain k1 where k: "k = k1 @ [Rx (Group n [StarLazy c]), Rx (Lit l)]"
    and k': "Rx (StarLazy c') # k = (Rx (StarLazy c') # k1) @ [Rx (Group n [StarLazy c]), Rx (Lit l)]"
    by (cases k0) auto
  from "5.prems"(2) have u:
    "(case re_match k s g of
        Some r \<Rightarrow> Some r
      | None \<Rightarrow>
          (case s of
             [] \<Rightarrow> None
           | x # xs \<Rightarrow> if in_cls c' x then re_match (Rx (StarLazy c') # k) xs g else None))
     = Some (g', r)"
    by (subst (asm) re_match.simps) simp
  show ?case
  proof (cases "re_match k s g")
    case (Some b)
    with u have "re_match k s g = Some (g', r)" by simp
    from "5.IH"(1) [OF k this] show ?thesis .
  next
    case None
    with u obtain x xs where s: "s = x # xs" "in_cls c' x"
      and r: "re_match (Rx (StarLazy c') # k) xs g = Some (g', r)"
      by (auto simp del: re_match.simps split: list.splits if_splits)
    from "5.IH"(2) [OF None s k' r] obtain m a g0 where "xs = m @ a @ l @ r" "g' = (n, a) # g0"
      by blast
    then have "s = (x # m) @ a @ l @ r \<and> g' = (n, a) # g0" using s(1) by simp
    then show ?thesis by blast
  qed
next
  case (6 c' k s g)
  from "6.prems"(1) obtain k1 where
    k': "Rx (Star c') # k = (Rx (Star c') # k1) @ [Rx (Group n [StarLazy c]), Rx (Lit l)]"
    by (cases k0) auto
  from "6.prems"(2) obtain x xs where s: "s = x # xs" "in_cls c' x"
    and r: "re_match (Rx (Star c') # k) xs g = Some (g', r)"
    by (subst (asm) re_match.simps) (auto simp del: re_match.simps split: list.splits if_splits)
  from "6.IH" [OF s k' r] obtain m a g0 where "xs = m @ a @ l @ r" "g' = (n, a) # g0"
    by blast
  then have "s = (x # m) @ a @ l @ r \<and> g' = (n, a) # g0" using s(1) by simp
  then show ?case by blast
next
  case (7 rs k s g)
  from "7.prems"(1) obtain k1 where k: "k = k1 @ [Rx (Group n [StarLazy c]), Rx (Lit l)]"
    and k': "map Rx rs @ k = (map Rx rs @ k1) @ [Rx (Group n [StarLazy c]), Rx (Lit l)]"
    by (cases k0) auto
  show ?case
  proof (cases "re_match (map Rx rs @ k) s g")
    case (Some b)
    with "7.prems"(2) have "re_match (map Rx rs @ k) s g = Some (g', r)" by simp
    from "7.IH"(1) [OF k' this] show ?thesis .
  next
    case None
    with "7.prems"(2) have "re_match k s g = Some (g', r)" by simp
    from "7.IH"(2) [OF None k this] show ?thesis .
  qed
next
  case (8 n' rs k s g)
  show ?case
  proof (cases k0)
    case Nil
    with "8.prems" have "re_match [Rx (StarLazy c), Close n ([] @ s), Rx (Lit l)] s g = Some (g', r)"
      by simp
    from lazy_capture [OF this] obtain u where "s = [] @ u @ l @ r" "g' = (n, u) # g"
      by auto
    then show ?thesis by blast
  next
    case (Cons f k1)
    with "8.prems"(1) have
      k': "map Rx rs @ Close n' s # k
           = (map Rx rs @ Close n' s # k1) @ [Rx (Group n [StarLazy c]), Rx (Lit l)]"
      by simp
    from "8.prems"(2) have "re_match (map Rx rs @ Close n' s # k) s g = Some (g', r)" by simp
    from "8.IH" [OF k' this] show ?thesis .
  qed
next
  case (9 n' s0 k s g)
  from "9.prems"(1) obtain k1 where k: "k = k1 @ [Rx (Group n [StarLazy c]), Rx (Lit l)]"
    by (cases k0) auto
  from "9.prems"(2) have "re_match k s ((n', take (length s0 - length s) s0) # g) = Some (g', r)"
    by simp
  from "9.IH" [OF k this] show ?case .
qed

lemma re_match_shorter:
  assumes "0 < sum_list (map min_len p)" "re_match (map Rx p) s [] = Some (g, r)"
  shows "length r < length s"
proof -
  from re_match_consumes [OF assms(2)] obtain m
    where m: "s = m @ r" "sum_list (map fmin (map Rx p)) \<le> length m"
    by blast
  have e: "sum_list (map fmin (map Rx p)) = sum_list (map min_len p)"
    by (simp add: comp_def)
  from m(2) assms(1) have "0 < length m"
    unfolding e by linarith
  with m(1) show ?thesis by simp
qed

lemma re_search_Some:
  "re_search p s = Some (pre, g, rest)
   \<Longrightarrow> \<exists>m. s = pre @ m @ rest \<and> re_match (map Rx p) (m @ rest) [] = Some (g, rest)"
proof (induction s arbitrary: pre)
  case Nil
  then have "pre = []" "re_match (map Rx p) [] [] = Some (g, rest)"
    by (auto split: option.splits)
  moreover from re_match_consumes [OF this(2)] have "rest = []" by simp
  ultimately show ?case by simp
next
  case (Cons c cs)
  show ?case
  proof (cases "re_match (map Rx p) (c # cs) []")
    case (Some a)
    with Cons.prems have p: "pre = []" and m: "re_match (map Rx p) (c # cs) [] = Some (g, rest)"
      by auto
    from re_match_consumes [OF m] obtain m' where "c # cs = m' @ rest" by blast
    with p m show ?thesis by (intro exI [of _ m']) simp
  next
    case None
    with Cons.prems obtain pre' where p: "pre = c # pre'" "re_search p cs = Some (pre', g, rest)"
      by (auto split: option.splits)
    from Cons.IH [OF p(2)] p(1) show ?thesis by auto
  qed
qed

lemma re_sub_first:
  assumes "0 < sum_list (map min_len p)"
  shows "re_search p s = Some (pre, g, rest)
    \<Longrightarrow> re_sub p repl prev s
        = (case repl g of
             Inl e \<Rightarrow> Inl e
           | Inr t \<Rightarrow> prepend (pre @ t) (re_sub p repl True rest))"
proof (induction s arbitrary: pre prev)
  case Nil
  then have "re_match (map Rx p) [] [] = Some (g, rest)"
    by (auto split: option.splits)
  from re_match_shorter [OF assms this] show ?case by simp
next
  case (Cons c cs)
  show ?case
  proof (cases "re_match (map Rx p) (c # cs) []")
    case (Some a)
    with Cons.prems have p: "pre = []" and m: "re_match (map Rx p) (c # cs) [] = Some (g, rest)"
      by auto
    from re_match_shorter [OF assms m] have "length rest < length (c # cs)" .
    then show ?thesis
      by (subst re_sub.simps) (simp add: m p split: sum.splits)
  next
    case None
    with Cons.prems obtain pre' where p: "pre = c # pre'" "re_search p cs = Some (pre', g, rest)"
      by (auto split: option.splits)
    show ?thesis
      by (subst re_sub.simps) (simp add: None p(1) Cons.IH [OF p(2)] split: sum.splits)
  qed
qed

lemma re_sub_prev:
  assumes "0 < sum_list (map min_len p)"
  shows "re_sub p repl True s = re_sub p repl False s"
proof (cases "re_match (map Rx p) s []")
  case None
  then show ?thesis
    by (subst (1 2) re_sub.simps) simp
next
  case (Some a)
  obtain g r where a: "a = (g, r)" by (cases a)
  from re_match_shorter [OF assms Some [unfolded a]] have "length r < length s" .
  then show ?thesis
    by (subst (1 2) re_sub.simps) (simp add: Some a)
qed

lemma re_sub_total:
  "(\<And>g. \<exists>t. repl g = Inr t) \<Longrightarrow> \<exists>out. re_sub p repl prev s = Inr out"
proof (induction p repl prev s rule: re_sub.induct)
  case (1 p repl prev s)
  note repl = "1.prems"
  show ?case
  proof (cases "re_match (map Rx p) s []")
    case None
    show ?thesis
    proof (cases s)
      case Nil
      with None show ?thesis by (subst re_sub.simps) simp
    next
      case (Cons c cs)
      from "1.IH"(1) [OF None Cons repl] obtain out where "re_sub p repl False cs = Inr out"
        by blast
      with None Cons show ?thesis by (subst re_sub.simps) simp
    qed
  next
    case (Some a)
    obtain g rest where a: "a = (g, rest)" by (cases a)
    obtain t where t: "repl g = Inr t" using repl by blast
    show ?thesis
    proof (cases "length rest < length s")
      case True
      from "1.IH"(2) [OF Some [unfolded a] refl True t repl]
      obtain out where "re_sub p repl True rest = Inr out" by blast
      with Some a True t show ?thesis by (subst re_sub.simps) simp
    next
      case False
      obtain t' where t': "(if prev then Inr [] else repl g) = Inr t'"
        using t by (cases prev) auto
      show ?thesis
      proof (cases s)
        case Nil
        with Some a False t' show ?thesis by (subst re_sub.simps) simp
      next
        case (Cons c cs)
        from "1.IH"(3) [OF Some [unfolded a] refl False t' Cons repl]
        obtain out where "re_sub p repl False cs = Inr out" by blast
        with Some a False t' Cons show ?thesis by (subst re_sub.simps) simp
      qed
    qed
  qed
qed

lemma process_connect_eq:
  "process_connect pa s = re_sub CONNECT_RE (connect_repl pa) False s"
  by (simp add: process_connect_def split: sum.splits)

lemma process_emit_eq:
  "process_emit s = re_sub EMIT_RE (\<lambda>gs. Inr (emit_repl gs)) False s"
  by (simp add: process_emit_def split: sum.splits)

lemma CONNECT_RE_nonempty: "0 < sum_list (map min_len CONNECT_RE)"
  by (simp add: CONNECT_RE_def)

lemma EMIT_RE_nonempty: "0 < sum_list (map min_len EMIT_RE)"
  by (simp add: EMIT_RE_def)

lemma process_emit_total: "\<exists>out. process_emit s = Inr out"
  unfolding process_emit_eq by (rule re_sub_total) simp

lemma process_emit_first:
  assumes "re_search EMIT_RE s = Some (pre, g, rest)"
  shows "process_emit s = prepend (pre @ emit_repl g) (process_emit rest)"
  unfolding process_emit_eq
  by (simp add: re_sub_first [OF EMIT_RE_nonempty assms] re_sub_prev [OF EMIT_RE_nonempty])

lemma process_connect_first:
  assumes "re_search CONNECT_RE s = Some (pre, g, rest)"
  shows "process_connect pa s
    = (case connect_repl pa g of
         Inl e \<Rightarrow> Inl e
       | Inr t \<Rightarrow> prepend (pre @ t) (process_connect pa rest))"
  unfolding process_connect_eq
  by (cases "connect_repl pa g")
     (simp_all add: re_sub_first [OF CONNECT_RE_nonempty assms] re_sub_prev [OF CONNECT_RE_nonempty])

lemma EMIT_RE_tail:
  "map Rx EMIT_RE = map Rx (butlast (butlast EMIT_RE)) @ [Rx (Group ''args'' [StarLazy AnyChar]), Rx (Lit '')'')]"
  by (simp add: EMIT_RE_def)

section \<open>The two round trips\<close>

text \<open>
  C1. For the fragment \<^verbatim>\<open>self.connect(obj, QtCore.SIGNAL("valueChanged(int)"), self.onValueChanged)\<close>
  \<^verbatim>\<open>process_connect\<close> returns exactly \<^verbatim>\<open>obj.valueChanged.connect(self.onValueChanged)\<close>.
\<close>

theorem connect_round_trip:
  "process_connect parse_args_call
     (''self.connect(obj, QtCore.SIGNAL('' @ [dq] @ ''valueChanged(int)'' @ [dq]
      @ ''), self.onValueChanged)'')
   = Inr ''obj.valueChanged.connect(self.onValueChanged)''"
  by code_simp

text \<open>
  C2. For the fragment \<^verbatim>\<open>obj.emit(QtCore.SIGNAL("valueChanged(int)"), 5)\<close>
  \<^verbatim>\<open>process_emit\<close> returns exactly \<^verbatim>\<open>obj.valueChanged.emit(5)\<close>.
\<close>

theorem emit_round_trip:
  "process_emit (''obj.emit(QtCore.SIGNAL('' @ [dq] @ ''valueChanged(int)'' @ [dq] @ ''), 5)'')
   = Inr ''obj.valueChanged.emit(5)''"
  by code_simp

section \<open>Fragments without a match\<close>

text \<open>
  C3. When the pattern finds no match in the fragment, \<^verbatim>\<open>process_connect\<close> and
  \<^verbatim>\<open>process_emit\<close> each return the input unchanged. Neither has a state to record into:
  the result is the returned text alone.
\<close>

theorem no_match_unchanged:
  "(re_search CONNECT_RE s = None \<longrightarrow> process_connect pa s = Inr s)
   \<and> (re_search EMIT_RE s = None \<longrightarrow> process_emit s = Inr s)"
  by (simp add: process_connect_eq process_emit_eq re_sub_no_match)

theorem no_match_unchanged_witness:
  "re_search CONNECT_RE ''self.x = obj.value(int)'' = None
   \<and> process_connect parse_args_call ''self.x = obj.value(int)'' = Inr ''self.x = obj.value(int)''
   \<and> re_search EMIT_RE ''self.x = obj.value(int)'' = None
   \<and> process_emit ''self.x = obj.value(int)'' = Inr ''self.x = obj.value(int)''"
proof -
  have c: "re_search CONNECT_RE ''self.x = obj.value(int)'' = None" by code_simp
  have e: "re_search EMIT_RE ''self.x = obj.value(int)'' = None" by code_simp
  from no_match_unchanged [of "''self.x = obj.value(int)''" parse_args_call] c e
  show ?thesis by blast
qed

section \<open>What the rewritten span is made of\<close>

text \<open>
  C4. At the first match of the EMIT pattern the text captured as \<^verbatim>\<open>args\<close> is the part
  \<open>a\<close> of the input that stands right before the closing parenthesis of the match, and
  the replacement is \<^verbatim>\<open>owner.signal.emit(\<close>\<open>a\<close>\<^verbatim>\<open>)\<close>: the captured text is copied
  character for character between the parentheses; what follows the match is processed
  in the same way.
\<close>

theorem emit_args_verbatim:
  assumes "re_search EMIT_RE s = Some (pre, g, rest)"
  shows "\<exists>m a out.
           s = pre @ m @ a @ '')'' @ rest
         \<and> map_of g ''args'' = Some a
         \<and> process_emit rest = Inr out
         \<and> process_emit s
             = Inr (pre @ format_field (map_of g ''owner'') @ ''.''
                    @ format_field (map_of g ''signal'') @ ''.emit('' @ a @ '')'' @ out)"
proof -
  from re_search_Some [OF assms] obtain m0
    where s: "s = pre @ m0 @ rest"
      and m: "re_match (map Rx EMIT_RE) (m0 @ rest) [] = Some (g, rest)"
    by blast
  from tail_capture [OF EMIT_RE_tail m] obtain m a g0
    where t: "m0 @ rest = m @ a @ '')'' @ rest" "g = (''args'', a) # g0"
    by blast
  obtain out where out: "process_emit rest = Inr out"
    using process_emit_total by blast
  from s t(1) have "s = pre @ m @ a @ '')'' @ rest" by simp
  moreover from t(2) have a: "map_of g ''args'' = Some a" by simp
  moreover have "process_emit s
      = Inr (pre @ format_field (map_of g ''owner'') @ ''.''
             @ format_field (map_of g ''signal'') @ ''.emit('' @ a @ '')'' @ out)"
    by (simp add: process_emit_first [OF assms] out emit_repl_def a)
  ultimately show ?thesis using out by blast
qed

theorem emit_args_verbatim_witness:
  "re_search EMIT_RE (''x = 1; obj.emit(SIGNAL('' @ [dq] @ ''moved(int, int)'' @ [dq] @ ''), dx + 1, dy); y = 2'')
     = Some (''x = 1; '',
             [(''args'', ''dx + 1, dy''), (''arg_types'', ''int, int''), (''signal'', ''moved''),
              (''owner'', ''obj'')],
             ''; y = 2'')
   \<and> process_emit (''x = 1; obj.emit(SIGNAL('' @ [dq] @ ''moved(int, int)'' @ [dq] @ ''), dx + 1, dy); y = 2'')
     = Inr ''x = 1; obj.moved.emit(dx + 1, dy); y = 2''"
proof -
  let ?s = "''x = 1; obj.emit(SIGNAL('' @ [dq] @ ''moved(int, int)'' @ [dq] @ ''), dx + 1, dy); y = 2''"
  let ?g = "[(''args'', ''dx + 1, dy''), (''arg_types'', ''int, int''), (''signal'', ''moved''),
              (''owner'', ''obj'')]"
  have h: "re_search EMIT_RE ?s = Some (''x = 1; '', ?g, ''; y = 2'')"
    by code_simp
  have r: "process_emit ''; y = 2'' = Inr ''; y = 2''"
    by code_simp
  from emit_args_verbatim [OF h] obtain m a out
    where "map_of ?g ''args'' = Some a" "process_emit ''; y = 2'' = Inr out"
      "process_emit ?s
         = Inr (''x = 1; '' @ format_field (map_of ?g ''owner'') @ ''.''
                @ format_field (map_of ?g ''signal'') @ ''.emit('' @ a @ '')'' @ out)"
    by blast
  with r have "process_emit ?s = Inr ''x = 1; obj.moved.emit(dx + 1, dy); y = 2''"
    by simp
  with h show ?thesis by (rule conjI)
qed

text \<open>
  The slot is captured up to the first closing parenthesis, so in a connect of a signal
  to a signal the slot holds the second descriptor with its argument types: the two
  fragments differ in the argument-type text of that descriptor only, and that text
  stands in the rewritten span of each.
\<close>

theorem connect_signature_in_slot_counterexample:
  "re_search CONNECT_RE
     (''self.connect(a, SIGNAL('' @ [dq] @ ''x(int)'' @ [dq] @ ''), b, SIGNAL('' @ [dq] @ ''y(int)''
      @ [dq] @ ''))'')
   = Some ([], [(''slot'', ''b, SIGNAL('' @ [dq] @ ''y(int''), (''args'', ''int''),
                (''signal'', ''x''), (''owner'', ''a'')], [dq] @ ''))'')
   \<and> process_connect parse_args_call
     (''self.connect(a, SIGNAL('' @ [dq] @ ''x(int)'' @ [dq] @ ''), b, SIGNAL('' @ [dq] @ ''y(int)''
      @ [dq] @ ''))'')
   = Inr (''a.x.connect(b, SIGNAL('' @ [dq] @ ''y(int)'' @ [dq] @ ''))'')
   \<and> process_connect parse_args_call
     (''self.connect(a, SIGNAL('' @ [dq] @ ''x(int)'' @ [dq] @ ''), b, SIGNAL('' @ [dq] @ ''y(bool)''
      @ [dq] @ ''))'')
   = Inr (''a.x.connect(b, SIGNAL('' @ [dq] @ ''y(bool)'' @ [dq] @ ''))'')
   \<and> process_connect parse_args_call
     (''self.connect(a, SIGNAL('' @ [dq] @ ''x(int)'' @ [dq] @ ''), b, SIGNAL('' @ [dq] @ ''y(int)''
      @ [dq] @ ''))'')
   \<noteq> process_connect parse_args_call
     (''self.connect(a, SIGNAL('' @ [dq] @ ''x(int)'' @ [dq] @ ''), b, SIGNAL('' @ [dq] @ ''y(bool)''
      @ [dq] @ ''))'')"
  by code_simp

text \<open>
  C5, amended. The CONNECT rewrite discards the text that the pattern captures as the
  signature, the group \<^verbatim>\<open>args\<close>: two fragments whose first matches have the same text
  before and after them and the same captured owner, signal and slot, whatever their
  \<^verbatim>\<open>args\<close>, are rewritten to the same output when \<^verbatim>\<open>parse_args\<close> returns on both
  signatures, and the rewritten span is \<^verbatim>\<open>owner.signal.connect(slot)\<close>, built from the
  three other groups only.
\<close>

theorem connect_discards_signature:
  assumes "re_search CONNECT_RE s1 = Some (pre, g1, rest)"
    and "re_search CONNECT_RE s2 = Some (pre, g2, rest)"
    and "map_of g1 ''owner'' = map_of g2 ''owner''"
    and "map_of g1 ''signal'' = map_of g2 ''signal''"
    and "map_of g1 ''slot'' = map_of g2 ''slot''"
    and "pa (map_of g1 ''args'') = Inr v1"
    and "pa (map_of g2 ''args'') = Inr v2"
  shows "process_connect pa s1 = process_connect pa s2
       \<and> process_connect pa s1
         = prepend (pre @ format_field (map_of g1 ''owner'') @ ''.''
                    @ format_field (map_of g1 ''signal'') @ ''.connect(''
                    @ format_field (map_of g1 ''slot'') @ '')'')
             (process_connect pa rest)"
  by (simp add: process_connect_first [OF assms(1)] process_connect_first [OF assms(2)]
      connect_repl_def assms(3-))

theorem connect_discards_signature_witness:
  "re_search CONNECT_RE (''self.connect(b, SIGNAL('' @ [dq] @ ''done(int)'' @ [dq] @ ''), f)'')
     = Some ([], [(''slot'', ''f''), (''args'', ''int''), (''signal'', ''done''), (''owner'', ''b'')], [])
   \<and> re_search CONNECT_RE (''self.connect(b, SIGNAL('' @ [dq] @ ''done(QString, bool)'' @ [dq] @ ''), f)'')
     = Some ([], [(''slot'', ''f''), (''args'', ''QString, bool''), (''signal'', ''done''),
                  (''owner'', ''b'')], [])
   \<and> parse_args_call (Some ''int'') = Inr [''int'']
   \<and> parse_args_call (Some ''QString, bool'') = Inr [''QString'', ''bool'']
   \<and> process_connect parse_args_call
         (''self.connect(b, SIGNAL('' @ [dq] @ ''done(int)'' @ [dq] @ ''), f)'')
     = process_connect parse_args_call
         (''self.connect(b, SIGNAL('' @ [dq] @ ''done(QString, bool)'' @ [dq] @ ''), f)'')
   \<and> process_connect parse_args_call
         (''self.connect(b, SIGNAL('' @ [dq] @ ''done(int)'' @ [dq] @ ''), f)'')
     = Inr ''b.done.connect(f)''"
proof -
  let ?s1 = "''self.connect(b, SIGNAL('' @ [dq] @ ''done(int)'' @ [dq] @ ''), f)''"
  let ?s2 = "''self.connect(b, SIGNAL('' @ [dq] @ ''done(QString, bool)'' @ [dq] @ ''), f)''"
  let ?g1 = "[(''slot'', ''f''), (''args'', ''int''), (''signal'', ''done''), (''owner'', ''b'')]"
  let ?g2 = "[(''slot'', ''f''), (''args'', ''QString, bool''), (''signal'', ''done''),
              (''owner'', ''b'')]"
  have h1: "re_search CONNECT_RE ?s1 = Some ([], ?g1, [])" by code_simp
  have h2: "re_search CONNECT_RE ?s2 = Some ([], ?g2, [])" by code_simp
  have p1: "parse_args_call (Some ''int'') = Inr [''int'']" by code_simp
  have p2: "parse_args_call (Some ''QString, bool'') = Inr [''QString'', ''bool'']" by code_simp
  have p1': "parse_args_call (map_of ?g1 ''args'') = Inr [''int'']" using p1 by simp
  have p2': "parse_args_call (map_of ?g2 ''args'') = Inr [''QString'', ''bool'']" using p2 by simp
  have e: "process_connect parse_args_call [] = Inr []" by code_simp
  have o: "map_of ?g1 ''owner'' = map_of ?g2 ''owner''"
    "map_of ?g1 ''signal'' = map_of ?g2 ''signal''"
    "map_of ?g1 ''slot'' = map_of ?g2 ''slot''"
    by simp_all
  note t = connect_discards_signature [OF h1 h2 o p1' p2']
  from t have a: "process_connect parse_args_call ?s1 = process_connect parse_args_call ?s2"
    by (rule conjunct1)
  from t have "process_connect parse_args_call ?s1
      = prepend ([] @ format_field (map_of ?g1 ''owner'') @ ''.''
                 @ format_field (map_of ?g1 ''signal'') @ ''.connect(''
                 @ format_field (map_of ?g1 ''slot'') @ '')'')
          (process_connect parse_args_call [])"
    by (rule conjunct2)
  then have b: "process_connect parse_args_call ?s1 = Inr ''b.done.connect(f)''"
    by (simp add: e prepend_def)
  note a b
  with h1 h2 p1 p2 show ?thesis by (intro conjI)
qed

text \<open>
  C10. When the group \<^verbatim>\<open>owner\<close> takes no part in the first match of the EMIT pattern,
  the rewritten span starts with the text \<^verbatim>\<open>None.\<close>: the template formats the \<^verbatim>\<open>None\<close>
  of the group dictionary.
\<close>

theorem emit_without_owner:
  assumes "re_search EMIT_RE s = Some (pre, g, rest)"
    and "map_of g ''owner'' = None"
  shows "\<exists>out. process_emit rest = Inr out
           \<and> process_emit s
             = Inr (pre @ ''None.'' @ format_field (map_of g ''signal'') @ ''.emit(''
                    @ format_field (map_of g ''args'') @ '')'' @ out)"
proof -
  obtain out where out: "process_emit rest = Inr out"
    using process_emit_total by blast
  then show ?thesis
    by (simp add: process_emit_first [OF assms(1)] emit_repl_def assms(2))
qed

theorem emit_without_owner_witness:
  "re_search EMIT_RE (''emit(SIGNAL('' @ [dq] @ ''clicked()'' @ [dq] @ ''))'')
     = Some ([], [(''args'', []), (''arg_types'', []), (''signal'', ''clicked'')], [])
   \<and> map_of [(''args'', []), (''arg_types'', []), (''signal'', ''clicked'')] ''owner'' = None
   \<and> process_emit (''emit(SIGNAL('' @ [dq] @ ''clicked()'' @ [dq] @ ''))'')
     = Inr ''None.clicked.emit()''"
proof -
  let ?s = "''emit(SIGNAL('' @ [dq] @ ''clicked()'' @ [dq] @ ''))''"
  let ?g = "[(''args'', []), (''arg_types'', []), (''signal'', ''clicked'')]"
  have h: "re_search EMIT_RE ?s = Some ([], ?g, [])" by code_simp
  have n: "map_of ?g ''owner'' = None" by simp
  have e: "process_emit [] = Inr []" by code_simp
  from emit_without_owner [OF h n] e
  have "process_emit ?s = Inr ''None.clicked.emit()''" by simp
  with h n show ?thesis by (intro conjI)
qed

section \<open>\<^verbatim>\<open>merge_dict\<close>, key by key\<close>

lemma fill_missing_map:
  "fill_missing key d other = Inr d'
   \<Longrightarrow> \<exists>v. fill_value key (map_of d key) (map_of other key) = Inr v
        \<and> map_of d' = (map_of d)(key \<mapsto> v)"
  by (auto simp: fill_missing_def fill_value_def getitem_def update_conv' map_upd_triv
      split: if_splits option.splits sum.splits)

lemma merge_key_map:
  assumes "merge_key k (l, r, out) = Inr (l1, r1, out1)"
  shows "\<exists>lv rv ov.
           key_step k (map_of l k) (map_of r k) = Inr (lv, rv, ov)
         \<and> map_of l1 = (map_of l)(k \<mapsto> lv)
         \<and> map_of r1 = (map_of r)(k \<mapsto> rv)
         \<and> map_of out1 = (case ov of None \<Rightarrow> map_of out | Some v \<Rightarrow> (map_of out)(k \<mapsto> v))"
proof -
  from assms obtain r' where r': "fill_missing k r l = Inr r'"
    by (auto simp: merge_key_def split: sum.splits)
  from assms r' obtain l' where l': "fill_missing k l r' = Inr l'"
    by (auto simp: merge_key_def split: sum.splits)
  from fill_missing_map [OF r'] obtain rv
    where rv: "fill_value k (map_of r k) (map_of l k) = Inr rv" "map_of r' = (map_of r)(k \<mapsto> rv)"
    by blast
  from fill_missing_map [OF l'] obtain lv
    where lv: "fill_value k (map_of l k) (map_of r' k) = Inr lv" "map_of l' = (map_of l)(k \<mapsto> lv)"
    by blast
  have gl: "getitem l' k = Inr lv" and gr: "getitem r' k = Inr rv"
    by (simp_all add: getitem_def lv(2) rv(2))
  have lv': "fill_value k (map_of l k) (Some rv) = Inr lv"
    using lv(1) rv(2) by simp
  show ?thesis
    using assms r' l' gl gr rv lv lv'
    by (auto simp: merge_key_def key_step_def update_conv' split: sum.splits if_splits)
qed

lemma key_step_again:
  "key_step k l r = Inr (lv, rv, ov) \<Longrightarrow> key_step k (Some lv) (Some rv) = Inr (lv, rv, ov)"
  by (auto simp: key_step_def fill_value_def split: option.splits sum.splits if_splits)

lemma merge_loop_key:
  "merge_loop keys (l, r, out) = Inr out'
   \<Longrightarrow> key_step key (map_of l key) (map_of r key) = Inr (lv, rv, ov)
   \<Longrightarrow> key \<in> set keys \<or> (ov \<noteq> None \<longrightarrow> map_of out key = ov)
   \<Longrightarrow> map_of out' key = (case ov of Some v \<Rightarrow> Some v | None \<Rightarrow> map_of out key)"
proof (induction keys arbitrary: l r out)
  case Nil
  then show ?case by (cases ov) auto
next
  case (Cons k ks)
  from Cons.prems(1) obtain l1 r1 out1
    where step: "merge_key k (l, r, out) = Inr (l1, r1, out1)"
      and rest: "merge_loop ks (l1, r1, out1) = Inr out'"
    by (auto split: sum.splits)
  from merge_key_map [OF step] obtain lv' rv' ov'
    where ks: "key_step k (map_of l k) (map_of r k) = Inr (lv', rv', ov')"
      and l1: "map_of l1 = (map_of l)(k \<mapsto> lv')"
      and r1: "map_of r1 = (map_of r)(k \<mapsto> rv')"
      and o1: "map_of out1 = (case ov' of None \<Rightarrow> map_of out | Some v \<Rightarrow> (map_of out)(k \<mapsto> v))"
    by blast
  show ?case
  proof (cases "k = key")
    case True
    with ks Cons.prems(2) have same: "lv' = lv" "rv' = rv" "ov' = ov" by simp_all
    have again: "key_step key (map_of l1 key) (map_of r1 key) = Inr (lv, rv, ov)"
      using key_step_again [OF Cons.prems(2)] by (simp add: l1 r1 True same)
    have o1k: "map_of out1 key = (case ov of Some v \<Rightarrow> Some v | None \<Rightarrow> map_of out key)"
      by (simp add: o1 same True split: option.splits)
    then have "key \<in> set ks \<or> (ov \<noteq> None \<longrightarrow> map_of out1 key = ov)"
      by (cases ov) auto
    from Cons.IH [OF rest again this] o1k show ?thesis
      by (cases ov) auto
  next
    case False
    have again: "key_step key (map_of l1 key) (map_of r1 key) = Inr (lv, rv, ov)"
      using Cons.prems(2) False by (simp add: l1 r1)
    have o1k: "map_of out1 key = map_of out key"
      using False by (simp add: o1 split: option.splits)
    from Cons.prems(3) False have "key \<in> set ks \<or> (ov \<noteq> None \<longrightarrow> map_of out1 key = ov)"
      by (auto simp: o1k)
    from Cons.IH [OF rest again this] o1k show ?thesis by (cases ov) auto
  qed
qed

lemma merge_loop_key_step:
  assumes "merge_loop keys (l, r, out) = Inr out'" "key \<in> set keys"
  shows "\<exists>lv rv ov. key_step key (map_of l key) (map_of r key) = Inr (lv, rv, ov)"
  using assms
proof (induction keys arbitrary: l r out)
  case Nil
  then show ?case by simp
next
  case (Cons k ks)
  from Cons.prems(1) obtain l1 r1 out1
    where step: "merge_key k (l, r, out) = Inr (l1, r1, out1)"
      and rest: "merge_loop ks (l1, r1, out1) = Inr out'"
    by (auto split: sum.splits)
  from merge_key_map [OF step] obtain lv' rv' ov'
    where ks: "key_step k (map_of l k) (map_of r k) = Inr (lv', rv', ov')"
      and l1: "map_of l1 = (map_of l)(k \<mapsto> lv')"
      and r1: "map_of r1 = (map_of r)(k \<mapsto> rv')"
    by blast
  show ?case
  proof (cases "k = key")
    case True
    with ks show ?thesis by blast
  next
    case False
    with Cons.prems(2) have "key \<in> set ks" by simp
    from Cons.IH [OF rest this] False show ?thesis by (simp add: l1 r1)
  qed
qed

lemma merge_dict_key:
  assumes "merge_dict lhs rhs keys keys_both = Inr out"
    and "key \<in> set (merge_keys lhs rhs keys keys_both)"
  shows "\<exists>lv rv. key_step key (map_of lhs key) (map_of rhs key) = Inr (lv, rv, map_of out key)"
proof -
  from assms(1) have loop: "merge_loop (merge_keys lhs rhs keys keys_both) (lhs, rhs, []) = Inr out"
    by (simp add: merge_dict_def)
  from merge_loop_key_step [OF loop assms(2)] obtain lv rv ov
    where ks: "key_step key (map_of lhs key) (map_of rhs key) = Inr (lv, rv, ov)"
    by blast
  from merge_loop_key [OF loop ks] assms(2) have "map_of out key = ov"
    by (cases ov) auto
  with ks show ?thesis by blast
qed

lemma key_step_merge_key:
  assumes "key_step k (map_of l k) (map_of r k) = Inr (lv, rv, ov)"
  shows "\<exists>l1 r1 out1. merge_key k (l, r, out) = Inr (l1, r1, out1)"
proof -
  from assms obtain rv' where rv: "fill_value k (map_of r k) (map_of l k) = Inr rv'"
    by (auto simp: key_step_def split: sum.splits)
  then obtain r' where r': "fill_missing k r l = Inr r'" "map_of r' k = Some rv'"
    by (auto simp: fill_missing_def fill_value_def getitem_def update_conv'
        split: option.splits sum.splits)
  from assms rv obtain lv' where lv: "fill_value k (map_of l k) (Some rv') = Inr lv'"
    by (auto simp: key_step_def split: sum.splits)
  then obtain l' where l': "fill_missing k l r' = Inr l'" "map_of l' k = Some lv'"
    using r'(2)
    by (auto simp: fill_missing_def fill_value_def getitem_def update_conv'
        split: option.splits sum.splits)
  from assms rv lv r' l' show ?thesis
    by (auto simp: merge_key_def key_step_def getitem_def split: sum.splits if_splits)
qed

lemma merge_loop_returns:
  "(\<forall>k \<in> set keys. \<exists>x. key_step k (map_of l k) (map_of r k) = Inr x)
   \<Longrightarrow> \<exists>out'. merge_loop keys (l, r, out) = Inr out'"
proof (induction keys arbitrary: l r out)
  case Nil
  then show ?case by simp
next
  case (Cons k ks)
  from Cons.prems obtain lv rv ov where ks: "key_step k (map_of l k) (map_of r k) = Inr (lv, rv, ov)"
    by (metis list.set_intros(1) prod_cases3)
  from key_step_merge_key [OF ks] obtain l1 r1 out1
    where step: "merge_key k (l, r, out) = Inr (l1, r1, out1)"
    by blast
  from merge_key_map [OF step] ks
  have l1: "map_of l1 = (map_of l)(k \<mapsto> lv)" and r1: "map_of r1 = (map_of r)(k \<mapsto> rv)"
    by auto
  have "\<forall>k' \<in> set ks. \<exists>x. key_step k' (map_of l1 k') (map_of r1 k') = Inr x"
  proof
    fix k' assume k': "k' \<in> set ks"
    show "\<exists>x. key_step k' (map_of l1 k') (map_of r1 k') = Inr x"
    proof (cases "k' = k")
      case True
      with key_step_again [OF ks] show ?thesis by (simp add: l1 r1)
    next
      case False
      with Cons.prems k' show ?thesis by (simp add: l1 r1)
    qed
  qed
  from Cons.IH [OF this] obtain out' where "merge_loop ks (l1, r1, out1) = Inr out'"
    by blast
  with step show ?case by simp
qed

lemma combinable_key_step: "combinable l r \<Longrightarrow> \<exists>x. key_step k l r = Inr x"
  by (induction l r rule: combinable.induct) (simp_all add: key_step_def fill_value_def)

text \<open>
  C6. When under every selected key both sides hold sets, or both hold texts, or one
  side holds a set or a text and the other lacks the key, the merge returns. In the
  result of a merge that returns, a selected key holds the union of the two sets, or the
  concatenation of the two texts, stored under it; when the key is absent from one side,
  that side is filled with the empty set or the empty text and the key holds the set or
  text of the other side unmodified. The witness has the instance of the spec,
  \<^verbatim>\<open>{bindings: {"PySide"}}\<close> merged with \<^verbatim>\<open>{bindings: {"PyQt5"}}\<close> over \<^verbatim>\<open>keys=["bindings"]\<close>,
  and a merge over the keys of both sides with a set and a text on each side.
\<close>

theorem merge_dict_combines:
  "((\<forall>k \<in> set (merge_keys lhs rhs keys keys_both). combinable (map_of lhs k) (map_of rhs k))
      \<longrightarrow> (\<exists>out. merge_dict lhs rhs keys keys_both = Inr out))
   \<and> (merge_dict lhs rhs keys keys_both = Inr out \<and> key \<in> set (merge_keys lhs rhs keys keys_both)
      \<longrightarrow> (map_of lhs key = Some (VSet A) \<and> map_of rhs key = Some (VSet B)
              \<longrightarrow> map_of out key = Some (VSet (A \<union> B)))
        \<and> (map_of lhs key = Some (VStr s) \<and> map_of rhs key = Some (VStr t)
              \<longrightarrow> map_of out key = Some (VStr (s @ t)))
        \<and> (map_of lhs key = Some (VSet A) \<and> map_of rhs key = None
              \<longrightarrow> map_of out key = Some (VSet A))
        \<and> (map_of lhs key = None \<and> map_of rhs key = Some (VSet B)
              \<longrightarrow> map_of out key = Some (VSet B))
        \<and> (map_of lhs key = Some (VStr s) \<and> map_of rhs key = None
              \<longrightarrow> map_of out key = Some (VStr s))
        \<and> (map_of lhs key = None \<and> map_of rhs key = Some (VStr t)
              \<longrightarrow> map_of out key = Some (VStr t)))"
proof (intro conjI impI)
  assume "\<forall>k \<in> set (merge_keys lhs rhs keys keys_both). combinable (map_of lhs k) (map_of rhs k)"
  then have "\<forall>k \<in> set (merge_keys lhs rhs keys keys_both).
      \<exists>x. key_step k (map_of lhs k) (map_of rhs k) = Inr x"
    using combinable_key_step by blast
  from merge_loop_returns [OF this] show "\<exists>out. merge_dict lhs rhs keys keys_both = Inr out"
    by (simp add: merge_dict_def)
next
  assume a: "merge_dict lhs rhs keys keys_both = Inr out \<and> key \<in> set (merge_keys lhs rhs keys keys_both)"
  then have k: "\<exists>lv rv. key_step key (map_of lhs key) (map_of rhs key) = Inr (lv, rv, map_of out key)"
    using merge_dict_key by blast
  {
    assume "map_of lhs key = Some (VSet A) \<and> map_of rhs key = Some (VSet B)"
    with k show "map_of out key = Some (VSet (A \<union> B))"
      by (auto simp: key_step_def fill_value_def)
  next
    assume "map_of lhs key = Some (VStr s) \<and> map_of rhs key = Some (VStr t)"
    with k show "map_of out key = Some (VStr (s @ t))"
      by (auto simp: key_step_def fill_value_def)
  next
    assume "map_of lhs key = Some (VSet A) \<and> map_of rhs key = None"
    with k show "map_of out key = Some (VSet A)"
      by (auto simp: key_step_def fill_value_def)
  next
    assume "map_of lhs key = None \<and> map_of rhs key = Some (VSet B)"
    with k show "map_of out key = Some (VSet B)"
      by (auto simp: key_step_def fill_value_def)
  next
    assume "map_of lhs key = Some (VStr s) \<and> map_of rhs key = None"
    with k show "map_of out key = Some (VStr s)"
      by (auto simp: key_step_def fill_value_def)
  next
    assume "map_of lhs key = None \<and> map_of rhs key = Some (VStr t)"
    with k show "map_of out key = Some (VStr t)"
      by (auto simp: key_step_def fill_value_def)
  }
qed

theorem merge_dict_combines_witness:
  "merge_dict [(''bindings'', VSet {AStr ''PySide''})] [(''bindings'', VSet {AStr ''PyQt5''})]
     (Some [''bindings'']) False
   = Inr [(''bindings'', VSet {AStr ''PySide'', AStr ''PyQt5''})]
   \<and> merge_keys
         [(''bindings'', VSet {AStr ''PySide''}), (''note'', VStr ''ab''), (''used'', VSet {AStr ''QtGui''})]
         [(''bindings'', VSet {AStr ''PyQt5''}), (''note'', VStr ''cd''), (''warnings'', VStr ''w'')]
         None True
     = [''bindings'', ''note'', ''used'', ''bindings'', ''note'', ''warnings'']
   \<and> combinable (Some (VSet {AStr ''PySide''})) (Some (VSet {AStr ''PyQt5''}))
   \<and> combinable (Some (VStr ''ab'')) (Some (VStr ''cd''))
   \<and> combinable (Some (VSet {AStr ''QtGui''})) None
   \<and> combinable None (Some (VStr ''w''))
   \<and> (\<exists>out. merge_dict
         [(''bindings'', VSet {AStr ''PySide''}), (''note'', VStr ''ab''), (''used'', VSet {AStr ''QtGui''})]
         [(''bindings'', VSet {AStr ''PyQt5''}), (''note'', VStr ''cd''), (''warnings'', VStr ''w'')]
         None True = Inr out)
   \<and> merge_dict
         [(''bindings'', VSet {AStr ''PySide''}), (''note'', VStr ''ab''), (''used'', VSet {AStr ''QtGui''})]
         [(''bindings'', VSet {AStr ''PyQt5''}), (''note'', VStr ''cd''), (''warnings'', VStr ''w'')]
         None True
     = Inr [(''bindings'', VSet {AStr ''PySide'', AStr ''PyQt5''}), (''note'', VStr ''abcd''),
            (''used'', VSet {AStr ''QtGui''}), (''warnings'', VStr ''w'')]
   \<and> map_of [(''bindings'', VSet {AStr ''PySide'', AStr ''PyQt5''}), (''note'', VStr ''abcd''),
        (''used'', VSet {AStr ''QtGui''}), (''warnings'', VStr ''w'')] ''note''
     = Some (VStr (''ab'' @ ''cd''))"
proof -
  let ?L = "[(''bindings'', VSet {AStr ''PySide''}), (''note'', VStr ''ab''),
             (''used'', VSet {AStr ''QtGui''})]"
  let ?R = "[(''bindings'', VSet {AStr ''PyQt5''}), (''note'', VStr ''cd''),
             (''warnings'', VStr ''w'')]"
  have spec: "merge_dict [(''bindings'', VSet {AStr ''PySide''})]
      [(''bindings'', VSet {AStr ''PyQt5''})] (Some [''bindings'']) False
    = Inr [(''bindings'', VSet {AStr ''PySide'', AStr ''PyQt5''})]"
    by code_simp
  have K: "merge_keys ?L ?R None True
      = [''bindings'', ''note'', ''used'', ''bindings'', ''note'', ''warnings'']"
    by (simp add: merge_keys_def)
  have c: "combinable (Some (VSet {AStr ''PySide''})) (Some (VSet {AStr ''PyQt5''}))"
    "combinable (Some (VStr ''ab'')) (Some (VStr ''cd''))"
    "combinable (Some (VSet {AStr ''QtGui''})) None"
    "combinable None (Some (VStr ''w''))"
    by simp_all
  have all: "\<forall>k \<in> set (merge_keys ?L ?R None True). combinable (map_of ?L k) (map_of ?R k)"
    unfolding K by simp
  from merge_dict_combines [of ?L ?R None True] all
  obtain out where out: "merge_dict ?L ?R None True = Inr out"
    by blast
  have m: "merge_dict ?L ?R None True
      = Inr [(''bindings'', VSet {AStr ''PySide'', AStr ''PyQt5''}), (''note'', VStr ''abcd''),
             (''used'', VSet {AStr ''QtGui''}), (''warnings'', VStr ''w'')]"
    by code_simp
  from merge_dict_combines
    [of ?L ?R None True
      "[(''bindings'', VSet {AStr ''PySide'', AStr ''PyQt5''}), (''note'', VStr ''abcd''),
        (''used'', VSet {AStr ''QtGui''}), (''warnings'', VStr ''w'')]"
      "''note''" _ _ "''ab''" "''cd''"] m K
  have n: "map_of [(''bindings'', VSet {AStr ''PySide'', AStr ''PyQt5''}), (''note'', VStr ''abcd''),
        (''used'', VSet {AStr ''QtGui''}), (''warnings'', VStr ''w'')] ''note''
      = Some (VStr (''ab'' @ ''cd''))"
    by simp
  from out have e: "\<exists>out. merge_dict ?L ?R None True = Inr out" by blast
  from spec K c e m n show ?thesis by (intro conjI)
qed

text \<open>
  A selected key whose value in \<^verbatim>\<open>lhs\<close> is a number is not passed through: \<^verbatim>\<open>op\<close> is
  \<^verbatim>\<open>None\<close>, nothing is assigned to \<^verbatim>\<open>out[key]\<close>, and the result has no such key.
\<close>

theorem merge_dict_passthrough_counterexample:
  "merge_dict [(''count'', VInt 1)] [(''count'', VInt 2)] (Some [''count'']) False = Inr []
   \<and> map_of ([] :: dict) ''count'' \<noteq> map_of [(''count'', VInt 1)] ''count''"
  by (simp add: merge_dict_def merge_keys_def merge_key_def fill_missing_def getitem_def)

text \<open>
  C7, amended. For every selected key whose value in \<^verbatim>\<open>lhs\<close> is neither a set nor text,
  a merge that returns leaves the key out of its result.
\<close>

theorem merge_dict_drops_other:
  assumes "merge_dict lhs rhs keys keys_both = Inr out"
    and "key \<in> set (merge_keys lhs rhs keys keys_both)"
    and "map_of lhs key = Some v" "\<not> isinstance_set v" "\<not> isinstance_str v"
  shows "map_of out key = None"
  using merge_dict_key [OF assms(1,2)] assms(3-)
  by (auto simp: key_step_def fill_value_def split: sum.splits option.splits)

theorem merge_dict_drops_other_witness:
  "merge_dict [(''count'', VInt 1)] [(''count'', VInt 2)] (Some [''count'']) False = Inr []
   \<and> ''count'' \<in> set (merge_keys [(''count'', VInt 1)] [(''count'', VInt 2)] (Some [''count'']) False)
   \<and> map_of [(''count'', VInt 1)] ''count'' = Some (VInt 1)
   \<and> \<not> isinstance_set (VInt 1) \<and> \<not> isinstance_str (VInt 1)
   \<and> map_of ([] :: dict) ''count'' = None"
proof -
  have m: "merge_dict [(''count'', VInt 1)] [(''count'', VInt 2)] (Some [''count'']) False = Inr []"
    by (simp add: merge_dict_def merge_keys_def merge_key_def fill_missing_def getitem_def)
  have k: "''count'' \<in> set (merge_keys [(''count'', VInt 1)] [(''count'', VInt 2)] (Some [''count'']) False)"
    by (simp add: merge_keys_def)
  from merge_dict_drops_other [OF m k, of "VInt 1"] m k show ?thesis by simp
qed

section \<open>The registry\<close>

lemma clean_AliasDict:
  "AliasDict (clean w)
   = (AliasDict w)(''bindings'' \<mapsto> set_next w, ''root_aliases'' \<mapsto> Suc (set_next w),
        ''used'' \<mapsto> Suc (Suc (set_next w)), ''warnings'' \<mapsto> Suc (Suc (Suc (set_next w))),
        ''errors'' \<mapsto> Suc (Suc (Suc (Suc (set_next w)))))"
  by (simp add: clean_def setitem_new_set_def new_set_def)

lemma clean_set_store:
  "set_store (clean w)
   = (set_store w)(set_next w := {}, Suc (set_next w) := {}, Suc (Suc (set_next w)) := {},
        Suc (Suc (Suc (set_next w))) := {}, Suc (Suc (Suc (Suc (set_next w)))) := {})"
  by (simp add: clean_def setitem_new_set_def new_set_def)

text \<open>
  C8. After \<^verbatim>\<open>clean\<close>, whatever the registry held and whichever sets its five keys
  shared before, each of the five keys holds an empty set; and adding an element to the
  set of one key then leaves the sets of the four other keys empty.
\<close>

theorem clean_then_add:
  "(\<forall>n \<in> set registry_names. registry_get (clean w) n = Some {})
   \<and> (\<forall>n \<in> set registry_names. \<forall>x. \<exists>w'.
         AliasDict_add n x (clean w) = Inr w'
       \<and> registry_get w' n = Some {x}
       \<and> (\<forall>m \<in> set registry_names. m \<noteq> n \<longrightarrow> registry_get w' m = Some {}))"
  by (simp add: registry_names_def registry_get_def AliasDict_add_def clean_AliasDict
      clean_set_store)

theorem clean_then_add_witness:
  "''used'' \<in> set registry_names \<and> ''errors'' \<in> set registry_names
   \<and> registry_get \<lparr>set_store = (\<lambda>a. {EStr ''PySide''}), set_next = 1, error_objs = [],
         AliasDict = (\<lambda>n. Some 0)\<rparr> ''used'' = Some {EStr ''PySide''}
   \<and> registry_get (clean \<lparr>set_store = (\<lambda>a. {EStr ''PySide''}), set_next = 1, error_objs = [],
         AliasDict = (\<lambda>n. Some 0)\<rparr>) ''used'' = Some {}
   \<and> (\<exists>w'. AliasDict_add ''used'' (EStr ''QtGui'')
             (clean \<lparr>set_store = (\<lambda>a. {EStr ''PySide''}), set_next = 1, error_objs = [],
                AliasDict = (\<lambda>n. Some 0)\<rparr>) = Inr w'
          \<and> registry_get w' ''used'' = Some {EStr ''QtGui''}
          \<and> registry_get w' ''errors'' = Some {})"
proof -
  let ?W = "\<lparr>set_store = (\<lambda>a. {EStr ''PySide''}), set_next = 1, error_objs = [],
         AliasDict = (\<lambda>n. Some 0)\<rparr>"
  have u: "''used'' \<in> set registry_names" and e: "''errors'' \<in> set registry_names"
    and d: "''errors'' \<noteq> ''used''"
    by (simp_all add: registry_names_def)
  have p: "registry_get ?W ''used'' = Some {EStr ''PySide''}"
    by (simp add: registry_get_def)
  note t = clean_then_add [of ?W]
  from t have a: "\<forall>n \<in> set registry_names. registry_get (clean ?W) n = Some {}"
    by (rule conjunct1)
  from t have b: "\<forall>n \<in> set registry_names. \<forall>x. \<exists>w'.
         AliasDict_add n x (clean ?W) = Inr w'
       \<and> registry_get w' n = Some {x}
       \<and> (\<forall>m \<in> set registry_names. m \<noteq> n \<longrightarrow> registry_get w' m = Some {})"
    by (rule conjunct2)
  from bspec [OF b u] obtain w' where w':
    "AliasDict_add ''used'' (EStr ''QtGui'') (clean ?W) = Inr w'"
    "registry_get w' ''used'' = Some {EStr ''QtGui''}"
    "\<forall>m \<in> set registry_names. m \<noteq> ''used'' \<longrightarrow> registry_get w' m = Some {}"
    by blast
  from bspec [OF w'(3) e] d have o: "registry_get w' ''errors'' = Some {}"
    by simp
  from u e p bspec [OF a u] w'(1,2) o show ?thesis
    by (intro conjI exI [of _ w'])
qed

lemma AliasDictClass_init_errors:
  "AliasDict (AliasDictClass_init w) ''errors'' = Some (Suc (Suc (Suc (Suc (set_next w)))))"
  by (simp add: AliasDictClass_init_def registry_names_def setitem_new_set_def new_set_def)

lemma clean_errors: "AliasDict (clean w) ''errors'' = Some (Suc (Suc (Suc (Suc (set_next w)))))"
  by (simp add: clean_AliasDict)

lemma AliasDict_add_keeps_dict: "AliasDict_add n x w = Inr w' \<Longrightarrow> AliasDict w' = AliasDict w"
  by (auto simp: AliasDict_add_def split: option.splits)

lemma ErrorClass_init_keeps_dict:
  "ErrorClass_init nd why w = Inr (self, w') \<Longrightarrow> AliasDict w' = AliasDict w"
  by (auto simp: ErrorClass_init_def Let_def AliasDict_add_def split: option.splits sum.splits)

text \<open>
  C9. In a registry that has its key \<^verbatim>\<open>errors\<close> (as it has from its construction on:
  \<open>AliasDictClass_init_errors\<close>, \<open>clean_errors\<close>, \<open>AliasDict_add_keeps_dict\<close>,
  \<open>ErrorClass_init_keeps_dict\<close>), the constructor of \<^verbatim>\<open>ErrorClass\<close> returns: the new
  record has \<^verbatim>\<open>row\<close> and \<^verbatim>\<open>row_to\<close> one less than the first and the last line of the
  node, so \<^verbatim>\<open>row <= row_to\<close> when the first line is not after the last, and the new
  record is an element of the set under \<^verbatim>\<open>errors\<close> afterwards.
\<close>

theorem error_record_filed:
  assumes "AliasDict w ''errors'' = Some a"
  shows "\<exists>self w'.
           ErrorClass_init nd why w = Inr (self, w')
         \<and> self = length (error_objs w)
         \<and> error_objs w' = error_objs w @
             [\<lparr>row = line (top_left (absolute_bounding_box nd)) - 1,
               row_to = line (bottom_right (absolute_bounding_box nd)) - 1,
               reason = why\<rparr>]
         \<and> (line (top_left (absolute_bounding_box nd)) \<le> line (bottom_right (absolute_bounding_box nd))
              \<longrightarrow> row (error_objs w' ! self) \<le> row_to (error_objs w' ! self))
         \<and> registry_get w' ''errors'' = Some (insert (ERef self) (set_store w a))"
  using assms
  by (simp add: ErrorClass_init_def Let_def AliasDict_add_def registry_get_def)

theorem error_record_filed_witness:
  "AliasDict (AliasDictClass_init \<lparr>set_store = (\<lambda>a. {}), set_next = 0, error_objs = [],
       AliasDict = Map.empty\<rparr>) ''errors'' = Some 4
   \<and> (\<exists>w'. ErrorClass_init
          \<lparr>absolute_bounding_box =
             \<lparr>top_left = \<lparr>line = 3, column = 1\<rparr>, bottom_right = \<lparr>line = 5, column = 9\<rparr>\<rparr>\<rparr>
          ''unsupported''
          (AliasDictClass_init \<lparr>set_store = (\<lambda>a. {}), set_next = 0, error_objs = [],
             AliasDict = Map.empty\<rparr>) = Inr (0, w')
        \<and> error_objs w' = [\<lparr>row = 2, row_to = 4, reason = ''unsupported''\<rparr>]
        \<and> registry_get w' ''errors'' = Some {ERef 0})"
proof -
  let ?W = "AliasDictClass_init \<lparr>set_store = (\<lambda>a. {}), set_next = 0, error_objs = [],
       AliasDict = Map.empty\<rparr>"
  let ?N = "\<lparr>absolute_bounding_box =
             \<lparr>top_left = \<lparr>line = 3, column = 1\<rparr>, bottom_right = \<lparr>line = 5, column = 9\<rparr>\<rparr>\<rparr>"
  have h: "AliasDict ?W ''errors'' = Some 4"
    by (simp add: AliasDictClass_init_errors)
  have o: "error_objs ?W = []"
    by (simp add: AliasDictClass_init_def registry_names_def setitem_new_set_def new_set_def)
  have s: "set_store ?W 4 = {}"
    by (simp add: AliasDictClass_init_def registry_names_def setitem_new_set_def new_set_def)
  from error_record_filed [OF h, of ?N "''unsupported''"] obtain self w'
    where r: "ErrorClass_init ?N ''unsupported'' ?W = Inr (self, w')"
      "self = length (error_objs ?W)"
      "error_objs w' = error_objs ?W @ [\<lparr>row = line (top_left (absolute_bounding_box ?N)) - 1,
               row_to = line (bottom_right (absolute_bounding_box ?N)) - 1,
               reason = ''unsupported''\<rparr>]"
      "registry_get w' ''errors'' = Some (insert (ERef self) (set_store ?W 4))"
    by blast
  from r(2) o have z: "self = 0" by simp
  from r(1) z have "ErrorClass_init ?N ''unsupported'' ?W = Inr (0, w')" by simp
  moreover from r(3) o have "error_objs w' = [\<lparr>row = 2, row_to = 4, reason = ''unsupported''\<rparr>]"
    by simp
  moreover from r(4) z s have "registry_get w' ''errors'' = Some {ERef 0}" by simp
  ultimately show ?thesis using h by blast
qed

end
